theory Spec2Isabelle
  imports Main "HOL-Library.Char_ord" "HOL-Library.List_Lexorder" "HOL-Library.Log_Nat"
begin

section \<open>Python values and built-ins used by \<open>bincom_test_solution.py\<close>\<close>

text \<open>
  Exceptions are values: every operation that can raise returns \<open>exn + 'a\<close>, with
  \<open>Inl\<close> carrying the exception. \<open>RequestException\<close> stands for whatever subclass of
  \<open>Exception\<close> the HTTP transport raises.
\<close>

datatype exn =
    AttributeError
  | IndexError
  | ValueError
  | ZeroDivisionError
  | RequestException string

text \<open>
  Python integers are unbounded (\<open>int\<close>). A finite binary64 float is represented by the
  rational number it denotes. The statistics return either the integer literal \<open>0\<close> or a
  float, hence the two constructors of \<open>number\<close>.
\<close>

datatype number = PyInt int | PyFloat rat

fun number_value :: "number \<Rightarrow> rat" where
  "number_value (PyInt i) = of_int i"
| "number_value (PyFloat x) = x"

subsection \<open>List indexing\<close>

text \<open>\<open>xs[i]\<close>: a negative index counts from the end, anything out of range raises.\<close>

definition getitem :: "'a list \<Rightarrow> int \<Rightarrow> exn + 'a" where
  "getitem xs i =
     (if 0 \<le> i \<and> i < int (length xs) then Inr (xs ! nat i)
      else if i < 0 \<and> - int (length xs) \<le> i then Inr (xs ! nat (int (length xs) + i))
      else Inl IndexError)"

subsection \<open>Insertion-ordered dictionaries and \<open>Counter\<close>\<close>

text \<open>
  A \<open>dict\<close> keeps its keys in order of first insertion, and \<open>max\<close> over its items
  depends on that order, so a dictionary is an association list with unique keys.
  Assigning to an existing key keeps the key's position; a new key goes to the end.
\<close>

type_synonym ('k, 'v) dict = "('k \<times> 'v) list"

fun dict_get :: "('k, 'v) dict \<Rightarrow> 'k \<Rightarrow> 'v \<Rightarrow> 'v" where
  "dict_get [] k dflt = dflt"
| "dict_get ((k', v') # d) k dflt = (if k' = k then v' else dict_get d k dflt)"

fun dict_setitem :: "('k, 'v) dict \<Rightarrow> 'k \<Rightarrow> 'v \<Rightarrow> ('k, 'v) dict" where
  "dict_setitem [] k v = [(k, v)]"
| "dict_setitem ((k', v') # d) k v =
     (if k' = k then (k', v) # d else (k', v') # dict_setitem d k v)"

definition dict_items :: "('k, 'v) dict \<Rightarrow> ('k \<times> 'v) list" where
  "dict_items d = d"

definition dict_values :: "('k, 'v) dict \<Rightarrow> 'v list" where
  "dict_values d = map snd d"

text \<open>
  \<open>Counter(iterable)\<close> starts from the empty dictionary and executes
  \<open>d[elem] = d.get(elem, 0) + 1\<close> for each element, left to right.
\<close>

definition count_element :: "('k, int) dict \<Rightarrow> 'k \<Rightarrow> ('k, int) dict" where
  "count_element d elem = dict_setitem d elem (dict_get d elem 0 + 1)"

definition Counter :: "'k list \<Rightarrow> ('k, int) dict" where
  "Counter xs = foldl count_element [] xs"

subsection \<open>\<open>max(iterable, key=...)\<close>\<close>

text \<open>
  \<open>max\<close> raises \<open>ValueError\<close> on an empty iterable; otherwise it keeps the first item
  and replaces it only by an item whose key is strictly greater.
\<close>

definition max_step :: "('a \<Rightarrow> int) \<Rightarrow> 'a \<Rightarrow> 'a \<Rightarrow> 'a" where
  "max_step key best item = (if key best < key item then item else best)"

fun max_key :: "('a \<Rightarrow> int) \<Rightarrow> 'a list \<Rightarrow> exn + 'a" where
  "max_key key [] = Inl ValueError"
| "max_key key (x # xs) = Inr (foldl (max_step key) x xs)"

subsection \<open>Float arithmetic\<close>

text \<open>
  binary64 arithmetic rounds the exact result to 53 significant bits, ties to even.
  \<open>floor_log2 x\<close> is the exponent \<open>e\<close> with \<open>2\<^sup>e \<le> x < 2\<^sup>e\<^sup>+\<^sup>1\<close> for positive \<open>x\<close>.
  The exponent range is not bounded here: the quantities of this program are built from
  list lengths and stay far inside the normal range.
\<close>

definition round_half_even :: "rat \<Rightarrow> int" where
  "round_half_even q =
     (let f = \<lfloor>q\<rfloor>; r = q - of_int f
      in if r < 1 / 2 then f
         else if 1 / 2 < r then f + 1
         else if even f then f else f + 1)"

definition floor_log2 :: "rat \<Rightarrow> int" where
  "floor_log2 x =
     (let (a, b) = quotient_of x; d = bitlen a - bitlen b
      in if 2 powi d \<le> x then d else d - 1)"

definition round_double :: "rat \<Rightarrow> rat" where
  "round_double x =
     (if x = 0 then 0
      else let ulp = 2 powi (floor_log2 \<bar>x\<bar> - 52)
           in of_int (round_half_even (x / ulp)) * ulp)"

text \<open>\<open>a / b\<close> on two integers: the correctly rounded quotient.\<close>

definition int_truediv :: "int \<Rightarrow> int \<Rightarrow> exn + rat" where
  "int_truediv a b =
     (if b = 0 then Inl ZeroDivisionError else Inr (round_double (of_int a / of_int b)))"

text \<open>\<open>i - x\<close> and \<open>x / i\<close> with an integer \<open>i\<close> and a float \<open>x\<close>: the integer is converted
  to a float first.\<close>

definition float_of_int :: "int \<Rightarrow> rat" where
  "float_of_int i = round_double (of_int i)"

definition int_sub_float :: "int \<Rightarrow> rat \<Rightarrow> rat" where
  "int_sub_float i x = round_double (float_of_int i - x)"

definition float_div_int :: "rat \<Rightarrow> int \<Rightarrow> exn + rat" where
  "float_div_int x i =
     (if i = 0 then Inl ZeroDivisionError else Inr (round_double (x / float_of_int i)))"

text \<open>
  The rounding of \<open>x ** 2\<close> (the C library's \<open>pow\<close>) and of \<open>sum\<close> over floats (its
  algorithm changed between interpreter versions) is not fixed by the program; both are
  parameters.
\<close>

record float_runtime =
  float_pow :: "rat \<Rightarrow> int \<Rightarrow> rat"
  float_sum :: "rat list \<Rightarrow> rat"

section \<open>The analyzer object\<close>

text \<open>
  The class declares \<open>def init(self)\<close>, not \<open>__init__\<close>, so constructing an object
  runs no initialiser and the three attributes do not exist until something assigns them.
  Each attribute is therefore optional; reading a missing one raises \<open>AttributeError\<close>.
  Labels are the upper-case ASCII words of the recogniser and of the fallback sequence,
  so a label is a \<open>string\<close>, compared character by character as Python compares
  \<open>str\<close>.
\<close>

record analyzer =
  url :: "string option"
  colors :: "string list option"
  color_frequencies :: "(string, int) dict option"

definition new_analyzer :: analyzer where
  "new_analyzer = \<lparr>url = None, colors = None, color_frequencies = None\<rparr>"

text \<open>The method \<open>init\<close>, when called explicitly.\<close>

definition init :: "analyzer \<Rightarrow> analyzer" where
  "init self =
     self\<lparr>url := Some ''https://drive.google.com/open?id=1nf9WMDjZWlUnlnKyz7qomEYDdtWW11Jf'',
          colors := Some [], color_frequencies := Some []\<rparr>"

subsection \<open>Acquisition\<close>

text \<open>
  The outside world of \<open>fetch_and_parse_html\<close>: \<open>requests_get u\<close> is the outcome of
  \<open>requests.get(u).text\<close> (an exception or the body), \<open>str_upper\<close> is \<open>str.upper\<close> and
  \<open>re_findall p\<close> is \<open>re.findall(p, \<cdot>)\<close>. The message printed by the handler is not
  modelled.
\<close>

record web =
  requests_get :: "string \<Rightarrow> exn + string"
  str_upper :: "string \<Rightarrow> string"
  re_findall :: "string \<Rightarrow> string \<Rightarrow> string list"

definition color_pattern :: string where
  "color_pattern =
     ''<td[^>]*>(RED|GREEN|BLUE|YELLOW|ORANGE|BLACK|WHITE|BROWN|PINK|PURPLE|GRAY)</td>''"

text \<open>
  The \<open>try\<close> body up to the assignment of \<open>self.colors\<close>: the only statements that can
  raise. Nothing is assigned before they have all succeeded.
\<close>

definition fetch_colors :: "web \<Rightarrow> analyzer \<Rightarrow> exn + string list" where
  "fetch_colors w self =
     (case url self of
        None \<Rightarrow> Inl AttributeError
      | Some u \<Rightarrow>
          (case requests_get w u of
             Inl e \<Rightarrow> Inl e
           | Inr html_content \<Rightarrow> Inr (re_findall w color_pattern (str_upper w html_content))))"

definition fetch_and_parse_html :: "web \<Rightarrow> analyzer \<Rightarrow> (exn + bool) \<times> analyzer" where
  "fetch_and_parse_html w self =
     (case fetch_colors w self of
        Inr found \<Rightarrow>
          (let cs = (if found = []
                     then [''RED'', ''GREEN'', ''BLUE'', ''RED'', ''GREEN'', ''BLUE'', ''RED'',
                           ''YELLOW'', ''BLUE'', ''RED'', ''GREEN'', ''RED'', ''BLUE'', ''GREEN'']
                     else found)
           in (Inr True, self\<lparr>colors := Some cs, color_frequencies := Some (Counter cs)\<rparr>))
      | Inl e \<Rightarrow>
          (let cs = [''RED'', ''GREEN'', ''BLUE'', ''RED'', ''GREEN'', ''BLUE'', ''RED'',
                     ''YELLOW'', ''BLUE'', ''RED'', ''GREEN'', ''RED'', ''BLUE'', ''GREEN'']
           in (Inr False, self\<lparr>colors := Some cs, color_frequencies := Some (Counter cs)\<rparr>)))"

subsection \<open>Queries\<close>

text \<open>
  Every method returns its result together with the object as it leaves it, so that what
  a query does to \<open>self\<close> is part of the model.
\<close>

definition get_mean_color :: "analyzer \<Rightarrow> (exn + string option) \<times> analyzer" where
  "get_mean_color self =
     (case color_frequencies self of
        None \<Rightarrow> (Inl AttributeError, self)
      | Some freqs \<Rightarrow>
          if freqs = [] then (Inr None, self)
          else (case max_key snd (dict_items freqs) of
                  Inl e \<Rightarrow> (Inl e, self)
                | Inr item \<Rightarrow> (Inr (Some (fst item)), self)))"

definition get_most_frequent_color :: "analyzer \<Rightarrow> (exn + string option) \<times> analyzer" where
  "get_most_frequent_color self = get_mean_color self"

definition get_median_color :: "analyzer \<Rightarrow> (exn + string option) \<times> analyzer" where
  "get_median_color self =
     (case colors self of
        None \<Rightarrow> (Inl AttributeError, self)
      | Some cs \<Rightarrow>
          if cs = [] then (Inr None, self)
          else
            (let sorted_colors = sort cs; n = int (length sorted_colors)
             in (map_sum id Some
                   (if n mod 2 = 1 then getitem sorted_colors (n div 2)
                    else getitem sorted_colors ((n - 1) div 2)),
                 self)))"

definition get_color_variance ::
  "float_runtime \<Rightarrow> analyzer \<Rightarrow> (exn + number) \<times> analyzer" where
  "get_color_variance rt self =
     (case colors self of
        None \<Rightarrow> (Inl AttributeError, self)
      | Some cs \<Rightarrow>
          if cs = [] then (Inr (PyInt 0), self)
          else
            (case color_frequencies self of
               None \<Rightarrow> (Inl AttributeError, self)
             | Some freqs \<Rightarrow>
                 (let n = int (length cs); frequencies = dict_values freqs
                  in case int_truediv n (int (length frequencies)) of
                       Inl e \<Rightarrow> (Inl e, self)
                     | Inr mean_freq \<Rightarrow>
                         (map_sum id PyFloat
                            (float_div_int
                               (float_sum rt
                                  (map (\<lambda>freq. float_pow rt (int_sub_float freq mean_freq) 2)
                                     frequencies))
                               (int (length frequencies))),
                          self))))"

definition get_red_probability :: "analyzer \<Rightarrow> (exn + number) \<times> analyzer" where
  "get_red_probability self =
     (case colors self of
        None \<Rightarrow> (Inl AttributeError, self)
      | Some cs \<Rightarrow>
          if cs = [] then (Inr (PyInt 0), self)
          else
            (case color_frequencies self of
               None \<Rightarrow> (Inl AttributeError, self)
             | Some freqs \<Rightarrow>
                 (let red_count = dict_get freqs ''RED'' 0
                  in (map_sum id PyFloat (int_truediv red_count (int (length cs))), self))))"

section \<open>Bonus utilities\<close>



text \<open>\<open>range(a, b)\<close> and the loop body \<open>fib_sequence.append(fib_sequence[i-1] + fib_sequence[i-2])\<close>.\<close>

definition py_range :: "int \<Rightarrow> int \<Rightarrow> int list" where
  "py_range a b = [a..b - 1]"

fun fib_loop :: "int list \<Rightarrow> int list \<Rightarrow> exn + int list" where
  "fib_loop fib_sequence [] = Inr fib_sequence"
| "fib_loop fib_sequence (i # rest) =
     (case getitem fib_sequence (i - 1) of
        Inl e \<Rightarrow> Inl e
      | Inr a \<Rightarrow>
          (case getitem fib_sequence (i - 2) of
             Inl e \<Rightarrow> Inl e
           | Inr b \<Rightarrow> fib_loop (fib_sequence @ [a + b]) rest))"

definition sum_first_50_fibonacci :: "exn + int" where
  "sum_first_50_fibonacci =
     (case fib_loop [0, 1] (py_range 2 50) of
        Inl e \<Rightarrow> Inl e
      | Inr fib_sequence \<Rightarrow> Inr (sum_list fib_sequence))"

section \<open>Reference notions used in the statements\<close>

text \<open>The Fibonacci numbers with \<open>F\<^sub>0 = 0\<close> and \<open>F\<^sub>1 = 1\<close>.\<close>

fun fib :: "nat \<Rightarrow> int" where
  "fib 0 = 0"
| "fib (Suc 0) = 1"
| "fib (Suc (Suc n)) = fib (Suc n) + fib n"

text \<open>The position of the first occurrence of \<open>x\<close> in \<open>xs\<close> (the length when there is none).\<close>

fun first_index :: "'a list \<Rightarrow> 'a \<Rightarrow> nat" where
  "first_index [] x = 0"
| "first_index (y # ys) x = (if y = x then 0 else Suc (first_index ys x))"

text \<open>The fallback sequence as the specification spells it.\<close>

definition fallback_sequence :: "string list" where
  "fallback_sequence =
     [''RED'', ''GREEN'', ''BLUE'', ''RED'', ''GREEN'', ''BLUE'', ''RED'',
      ''YELLOW'', ''BLUE'', ''RED'', ''GREEN'', ''RED'', ''BLUE'', ''GREEN'']"

text \<open>A state reached by deriving the table from the sequence, as acquisition does.\<close>

definition derived :: "analyzer \<Rightarrow> string list \<Rightarrow> bool" where
  "derived self cs \<longleftrightarrow> colors self = Some cs \<and> color_frequencies self = Some (Counter cs)"

text \<open>
  The object \<open>main\<close> works with: the fallback sequence and its table. Two further
  objects, one with a tie for the highest count and one that only went through \<open>init\<close>.
\<close>

definition sample_analyzer :: analyzer where
  "sample_analyzer =
     \<lparr>url = None, colors = Some fallback_sequence,
      color_frequencies = Some (Counter fallback_sequence)\<rparr>"

definition tied_analyzer :: analyzer where
  "tied_analyzer =
     \<lparr>url = None, colors = Some [''GREEN'', ''BLUE'', ''BLUE'', ''GREEN''],
      color_frequencies = Some (Counter [''GREEN'', ''BLUE'', ''BLUE'', ''GREEN''])\<rparr>"

definition offline :: web where
  "offline =
     \<lparr>requests_get = (\<lambda>u. Inl (RequestException ''connection refused'')),
      str_upper = (\<lambda>s. s), re_findall = (\<lambda>p s. [])\<rparr>"

definition blank_page :: web where
  "blank_page =
     \<lparr>requests_get = (\<lambda>u. Inr ''<html><body></body></html>''),
      str_upper = (\<lambda>s. s), re_findall = (\<lambda>p s. [])\<rparr>"

text \<open>
  One admissible float runtime: a correctly rounded power and a left-to-right sum.
\<close>

definition naive_runtime :: float_runtime where
  "naive_runtime =
     \<lparr>float_pow = (\<lambda>x n. round_double (x ^ nat n)),
      float_sum = foldl (\<lambda>acc x. round_double (acc + x)) 0\<rparr>"

section \<open>Facts about the dictionary model\<close>

lemma sum_dict_setitem:
  "sum_list (map snd (dict_setitem d k (dict_get d k 0 + 1))) = sum_list (map snd d) + (1::int)"
  by (induction d) auto

lemma sum_count_element: "sum_list (dict_values (count_element d x)) = sum_list (dict_values d) + 1"
  by (simp add: count_element_def dict_values_def sum_dict_setitem)

lemma sum_foldl_count_element:
  "sum_list (dict_values (foldl count_element d xs)) = sum_list (dict_values d) + int (length xs)"
  by (induction xs arbitrary: d) (simp_all add: sum_count_element)

lemma dict_get_setitem:
  "dict_get (dict_setitem d k v) k' dflt = (if k' = k then v else dict_get d k' dflt)"
  by (induction d) auto

lemma dict_get_count_element:
  "dict_get (count_element d x) k 0 = dict_get d k 0 + (if k = x then 1 else 0)"
  by (simp add: count_element_def dict_get_setitem)

lemma dict_get_foldl_count_element:
  "dict_get (foldl count_element d xs) k 0 = dict_get d k 0 + int (count_list xs k)"
  by (induction xs arbitrary: d) (auto simp: dict_get_count_element)

lemma Counter_get: "dict_get (Counter xs) k 0 = int (count_list xs k)"
  by (simp add: Counter_def dict_get_foldl_count_element)

lemma keys_dict_setitem:
  "map fst (dict_setitem d k v) = (if k \<in> fst ` set d then map fst d else map fst d @ [k])"
  by (induction d) (force split: if_splits)+

lemma Counter_snoc: "Counter (xs @ [x]) = count_element (Counter xs) x"
  by (simp add: Counter_def)

lemma keys_Counter_set: "fst ` set (Counter xs) = set xs"
proof (induction xs rule: rev_induct)
  case Nil
  show ?case by (simp add: Counter_def)
next
  case (snoc x xs)
  have "set (map fst (Counter (xs @ [x]))) = set (xs @ [x])"
    unfolding Counter_snoc count_element_def keys_dict_setitem using snoc by auto
  then show ?case by simp
qed

lemma keys_Counter_snoc:
  "map fst (Counter (xs @ [x])) = (if x \<in> set xs then map fst (Counter xs) else map fst (Counter xs) @ [x])"
  by (simp add: Counter_snoc count_element_def keys_dict_setitem keys_Counter_set)

lemma distinct_keys_Counter: "distinct (map fst (Counter xs))"
proof (induction xs rule: rev_induct)
  case Nil
  show ?case by (simp add: Counter_def)
next
  case (snoc x xs)
  have "set (map fst (Counter xs)) = set xs" using keys_Counter_set[of xs] by simp
  with snoc show ?case by (simp add: keys_Counter_snoc)
qed

lemma first_index_less: "x \<in> set xs \<Longrightarrow> first_index xs x < length xs"
  by (induction xs) auto

lemma first_index_append_in: "x \<in> set xs \<Longrightarrow> first_index (xs @ ys) x = first_index xs x"
  by (induction xs) auto

lemma first_index_append_notin: "x \<notin> set xs \<Longrightarrow> first_index (xs @ ys) x = length xs + first_index ys x"
  by (induction xs) auto

lemma keys_Counter_sorted:
  "sorted_wrt (\<lambda>a b. first_index xs a < first_index xs b) (map fst (Counter xs))"
proof (induction xs rule: rev_induct)
  case Nil
  show ?case by (simp add: Counter_def)
next
  case (snoc x xs)
  have ks: "set (map fst (Counter xs)) = set xs" using keys_Counter_set[of xs] by simp
  have mono: "sorted_wrt (\<lambda>a b. first_index (xs @ [x]) a < first_index (xs @ [x]) b) (map fst (Counter xs))"
    using snoc
    by (rule sorted_wrt_mono_rel[rotated]) (use ks in \<open>auto simp: first_index_append_in\<close>)
  show ?case
  proof (cases "x \<in> set xs")
    case True
    then show ?thesis using mono by (simp add: keys_Counter_snoc)
  next
    case False
    have "\<forall>a\<in>set (map fst (Counter xs)). first_index (xs @ [x]) a < first_index (xs @ [x]) x"
      using False ks by (auto simp: first_index_append_in first_index_append_notin first_index_less)
    then show ?thesis using mono False by (simp add: keys_Counter_snoc sorted_wrt_append)
  qed
qed


lemma foldl_max_step:
  "(foldl (max_step key) b xs = b \<and> (\<forall>z\<in>set xs. key z \<le> key b)) \<or>
   (\<exists>ys zs. xs = ys @ foldl (max_step key) b xs # zs \<and> key b < key (foldl (max_step key) b xs) \<and>
      (\<forall>y\<in>set ys. key y < key (foldl (max_step key) b xs)) \<and>
      (\<forall>z\<in>set zs. key z \<le> key (foldl (max_step key) b xs)))"
proof (induction xs arbitrary: b)
  case Nil
  show ?case by simp
next
  case (Cons x xs)
  let ?r = "foldl (max_step key) (max_step key b x) xs"
  have r: "foldl (max_step key) b (x # xs) = ?r" by simp
  show ?case
  proof (cases "key b < key x")
    case True
    then have b': "max_step key b x = x" by (simp add: max_step_def)
    from Cons.IH[of x] show ?thesis
    proof
      assume "foldl (max_step key) x xs = x \<and> (\<forall>z\<in>set xs. key z \<le> key x)"
      then have e: "?r = x" and a: "\<forall>z\<in>set xs. key z \<le> key ?r" using b' by simp_all
      have "x # xs = [] @ ?r # xs" using e by simp
      moreover have "key b < key ?r" using True e by simp
      moreover have "\<forall>y\<in>set []. key y < key ?r" by simp
      ultimately show ?thesis unfolding r using a by blast
    next
      assume "\<exists>ys zs. xs = ys @ foldl (max_step key) x xs # zs \<and> key x < key (foldl (max_step key) x xs) \<and>
        (\<forall>y\<in>set ys. key y < key (foldl (max_step key) x xs)) \<and>
        (\<forall>z\<in>set zs. key z \<le> key (foldl (max_step key) x xs))"
      then obtain ys zs where h: "xs = ys @ ?r # zs" "key x < key ?r"
        "\<forall>y\<in>set ys. key y < key ?r" "\<forall>z\<in>set zs. key z \<le> key ?r"
        unfolding b' by blast
      have "x # xs = (x # ys) @ ?r # zs" using h(1) by simp
      moreover have "key b < key ?r" using True h(2) by simp
      moreover have "\<forall>y\<in>set (x # ys). key y < key ?r" using h(2,3) by simp
      ultimately show ?thesis unfolding r using h(4) by blast
    qed
  next
    case False
    then have b': "max_step key b x = b" by (simp add: max_step_def)
    from Cons.IH[of b] show ?thesis
    proof
      assume "foldl (max_step key) b xs = b \<and> (\<forall>z\<in>set xs. key z \<le> key b)"
      then show ?thesis using False b' by simp
    next
      assume "\<exists>ys zs. xs = ys @ foldl (max_step key) b xs # zs \<and> key b < key (foldl (max_step key) b xs) \<and>
        (\<forall>y\<in>set ys. key y < key (foldl (max_step key) b xs)) \<and>
        (\<forall>z\<in>set zs. key z \<le> key (foldl (max_step key) b xs))"
      then obtain ys zs where h: "xs = ys @ ?r # zs" "key b < key ?r"
        "\<forall>y\<in>set ys. key y < key ?r" "\<forall>z\<in>set zs. key z \<le> key ?r"
        unfolding b' by blast
      have "x # xs = (x # ys) @ ?r # zs" using h(1) by simp
      moreover have "\<forall>y\<in>set (x # ys). key y < key ?r" using False h(2,3) by simp
      ultimately show ?thesis unfolding r using h(2,4) by blast
    qed
  qed
qed

lemma max_key_split:
  assumes "xs \<noteq> []"
  shows "\<exists>r ys zs. max_key key xs = Inr r \<and> xs = ys @ r # zs \<and>
           (\<forall>y\<in>set ys. key y < key r) \<and> (\<forall>z\<in>set zs. key z \<le> key r)"
proof -
  from assms obtain b bs where xs: "xs = b # bs" by (cases xs) auto
  let ?r = "foldl (max_step key) b bs"
  have m: "max_key key xs = Inr ?r" by (simp add: xs)
  from foldl_max_step[of key b bs] show ?thesis
  proof
    assume h: "?r = b \<and> (\<forall>z\<in>set bs. key z \<le> key b)"
    then have "xs = [] @ ?r # bs" and "\<forall>z\<in>set bs. key z \<le> key ?r" by (simp_all add: xs)
    moreover have "\<forall>y\<in>set []. key y < key ?r" by simp
    ultimately show ?thesis using m by blast
  next
    assume "\<exists>ys zs. bs = ys @ ?r # zs \<and> key b < key ?r \<and>
      (\<forall>y\<in>set ys. key y < key ?r) \<and> (\<forall>z\<in>set zs. key z \<le> key ?r)"
    then obtain ys zs where h: "bs = ys @ ?r # zs" "key b < key ?r"
      "\<forall>y\<in>set ys. key y < key ?r" "\<forall>z\<in>set zs. key z \<le> key ?r" by blast
    have "xs = (b # ys) @ ?r # zs" using h(1) by (simp add: xs)
    moreover have "\<forall>y\<in>set (b # ys). key y < key ?r" using h(2,3) by simp
    ultimately show ?thesis using m h(4) by blast
  qed
qed

lemma dict_get_entry: "(k, v) \<in> set d \<Longrightarrow> (k, dict_get d k dflt) \<in> set d"
  by (induction d) (auto split: if_splits)

lemma dict_get_member: "k \<in> fst ` set d \<Longrightarrow> (k, dict_get d k dflt) \<in> set d"
  using dict_get_entry by fastforce

lemma dict_get_distinct: "distinct (map fst d) \<Longrightarrow> (k, v) \<in> set d \<Longrightarrow> dict_get d k dflt = v"
  by (induction d) (auto simp: image_iff)

lemma Counter_member: "l \<in> set cs \<Longrightarrow> (l, int (count_list cs l)) \<in> set (Counter cs)"
  using dict_get_member[of l "Counter cs" 0] by (simp add: keys_Counter_set Counter_get)

lemma Counter_entry: "(l, c) \<in> set (Counter cs) \<Longrightarrow> l \<in> set cs \<and> c = int (count_list cs l)"
  using dict_get_distinct[OF distinct_keys_Counter, of l c cs 0] keys_Counter_set[of cs]
  by (force simp: Counter_get)

lemma mean_color_core:
  assumes "cs \<noteq> []"
  shows "\<exists>l. max_key snd (Counter cs) = Inr (l, int (count_list cs l)) \<and> l \<in> set cs \<and>
           (\<forall>l'. count_list cs l' \<le> count_list cs l) \<and>
           (\<forall>l'\<in>set cs. count_list cs l' = count_list cs l \<longrightarrow> first_index cs l \<le> first_index cs l')"
proof -
  have ne: "Counter cs \<noteq> []" using keys_Counter_set[of cs] assms by auto
  from max_key_split[OF ne, of snd] obtain r ys zs where
    m: "max_key snd (Counter cs) = Inr r" and sp: "Counter cs = ys @ r # zs"
    and lt: "\<forall>y\<in>set ys. snd y < snd r" and le: "\<forall>z\<in>set zs. snd z \<le> snd r" by blast
  obtain l c where r: "r = (l, c)" by (cases r)
  have "(l, c) \<in> set (Counter cs)" using sp r by simp
  then have l: "l \<in> set cs" and c: "c = int (count_list cs l)" by (auto dest: Counter_entry)
  have all: "\<forall>e\<in>set (Counter cs). snd e \<le> c" using sp r lt le by auto
  have maxi: "count_list cs l' \<le> count_list cs l" for l'
  proof (cases "l' \<in> set cs")
    case True
    from Counter_member[OF this] all have "int (count_list cs l') \<le> c" by force
    then show ?thesis using c by simp
  next
    case False
    then show ?thesis by (simp add: count_list_0_iff)
  qed
  have srt: "sorted_wrt (\<lambda>a b. first_index cs a < first_index cs b) (map fst ys @ l # map fst zs)"
    using keys_Counter_sorted[of cs] sp r by simp
  have tie: "first_index cs l \<le> first_index cs l'"
    if "l' \<in> set cs" "count_list cs l' = count_list cs l" for l'
  proof (cases "l' = l")
    case True
    then show ?thesis by simp
  next
    case False
    have "(l', c) \<in> set (Counter cs)" using Counter_member[OF that(1)] that(2) c by simp
    moreover have "(l', c) \<notin> set ys" using lt r by auto
    ultimately have "(l', c) \<in> set zs" using sp r False by auto
    then have "l' \<in> set (map fst zs)" by force
    then have "first_index cs l < first_index cs l'" using srt by (auto simp: sorted_wrt_append)
    then show ?thesis by simp
  qed
  show ?thesis using m r c l maxi tie by blast
qed

lemma Counter_sum: "sum_list (dict_values (Counter xs)) = int (length xs)"
  using sum_foldl_count_element[of "[]" xs] by (simp add: Counter_def dict_values_def)

lemma fetch_and_parse_html_post:
  "\<exists>cs b. fst (fetch_and_parse_html w self) = Inr b \<and>
     colors (snd (fetch_and_parse_html w self)) = Some cs \<and>
     color_frequencies (snd (fetch_and_parse_html w self)) = Some (Counter cs) \<and> cs \<noteq> []"
proof (cases "fetch_colors w self")
  case (Inl e)
  then show ?thesis by (auto simp: fetch_and_parse_html_def Let_def)
next
  case (Inr found)
  then show ?thesis by (cases "found = []") (auto simp: fetch_and_parse_html_def Let_def)
qed

lemma get_mean_color_derived:
  assumes "derived self cs" "max_key snd (Counter cs) = Inr (l, c)"
  shows "fst (get_mean_color self) = Inr (Some l)"
proof -
  have "Counter cs \<noteq> []" using assms(2) by (cases "Counter cs") auto
  then show ?thesis using assms by (simp add: get_mean_color_def derived_def dict_items_def)
qed

lemma derived_sample: "derived sample_analyzer fallback_sequence"
  by (simp add: derived_def sample_analyzer_def)

lemma derived_tied: "derived tied_analyzer [''GREEN'', ''BLUE'', ''BLUE'', ''GREEN'']"
  by (simp add: derived_def tied_analyzer_def)

section \<open>The frequency table\<close>

text \<open>
  C5. For every label sequence, the counts of the table that \<open>Counter\<close> derives from it
  add up to the length of the sequence; and whatever \<open>fetch_and_parse_html\<close> starts from
  and receives, the object it leaves holds a sequence together with the table derived
  from it, whose counts add up to the length of that sequence.
\<close>

theorem frequency_table_sum:
  "sum_list (dict_values (Counter cs)) = int (length cs) \<and>
   (\<exists>cs'. derived (snd (fetch_and_parse_html w self)) cs' \<and>
      sum_list (dict_values (the (color_frequencies (snd (fetch_and_parse_html w self))))) =
        int (length (the (colors (snd (fetch_and_parse_html w self))))))"
proof -
  obtain cs' where "colors (snd (fetch_and_parse_html w self)) = Some cs'"
    "color_frequencies (snd (fetch_and_parse_html w self)) = Some (Counter cs')"
    using fetch_and_parse_html_post[of w self] by blast
  then have "derived (snd (fetch_and_parse_html w self)) cs' \<and>
      sum_list (dict_values (the (color_frequencies (snd (fetch_and_parse_html w self))))) =
        int (length (the (colors (snd (fetch_and_parse_html w self)))))"
    by (simp add: derived_def Counter_sum)
  then show ?thesis using Counter_sum[of cs] by blast
qed

theorem frequency_table_sum_witness:
  "sum_list (dict_values (Counter fallback_sequence)) = int (length fallback_sequence) \<and>
   (\<exists>cs'. derived (snd (fetch_and_parse_html offline new_analyzer)) cs' \<and>
      sum_list (dict_values (the (color_frequencies (snd (fetch_and_parse_html offline new_analyzer))))) =
        int (length (the (colors (snd (fetch_and_parse_html offline new_analyzer))))))"
  using frequency_table_sum [of fallback_sequence offline new_analyzer] .

section \<open>Mode\<close>

text \<open>
  C1. On an object whose table is derived from a non-empty label sequence,
  \<open>get_mean_color\<close> returns a label of the sequence whose count in the table (which is
  its number of occurrences in the sequence) is greater than or equal to the count of
  every label. When the table is empty, in particular when it is derived from the empty
  sequence, the method returns \<open>None\<close>.
\<close>

theorem get_mean_color_is_mode:
  "(derived self cs \<and> cs \<noteq> [] \<longrightarrow>
      (\<exists>l. fst (get_mean_color self) = Inr (Some l) \<and> l \<in> set cs \<and>
           (\<forall>l'. dict_get (Counter cs) l' 0 \<le> dict_get (Counter cs) l 0) \<and>
           (\<forall>l'. count_list cs l' \<le> count_list cs l))) \<and>
   (color_frequencies self = Some [] \<longrightarrow> fst (get_mean_color self) = Inr None) \<and>
   (derived self [] \<longrightarrow> fst (get_mean_color self) = Inr None)"
proof (intro conjI impI)
  assume a: "derived self cs \<and> cs \<noteq> []"
  then obtain l where l: "max_key snd (Counter cs) = Inr (l, int (count_list cs l))"
    "l \<in> set cs" "\<forall>l'. count_list cs l' \<le> count_list cs l"
    using mean_color_core[of cs] by blast
  have "fst (get_mean_color self) = Inr (Some l)"
    using get_mean_color_derived[OF _ l(1)] a by simp
  then show "\<exists>l. fst (get_mean_color self) = Inr (Some l) \<and> l \<in> set cs \<and>
           (\<forall>l'. dict_get (Counter cs) l' 0 \<le> dict_get (Counter cs) l 0) \<and>
           (\<forall>l'. count_list cs l' \<le> count_list cs l)"
    using l(2,3) by (auto simp: Counter_get)
next
  assume "color_frequencies self = Some []"
  then show "fst (get_mean_color self) = Inr None" by (simp add: get_mean_color_def)
next
  assume "derived self []"
  then show "fst (get_mean_color self) = Inr None"
    by (simp add: get_mean_color_def derived_def Counter_def)
qed

theorem get_mean_color_is_mode_witness:
  "derived sample_analyzer fallback_sequence \<and> fallback_sequence \<noteq> [] \<and>
   (\<exists>l. fst (get_mean_color sample_analyzer) = Inr (Some l) \<and> l \<in> set fallback_sequence \<and>
      (\<forall>l'. dict_get (Counter fallback_sequence) l' 0 \<le> dict_get (Counter fallback_sequence) l 0) \<and>
      (\<forall>l'. count_list fallback_sequence l' \<le> count_list fallback_sequence l)) \<and>
   color_frequencies (init new_analyzer) = Some [] \<and>
   fst (get_mean_color (init new_analyzer)) = Inr None"
proof -
  have h: "derived sample_analyzer fallback_sequence \<and> fallback_sequence \<noteq> []"
    using derived_sample by (simp add: fallback_sequence_def)
  have e: "color_frequencies (init new_analyzer) = Some []"
    by (simp add: init_def new_analyzer_def)
  show ?thesis
    using h e get_mean_color_is_mode [of sample_analyzer fallback_sequence]
      get_mean_color_is_mode [of "init new_analyzer" "[]"] by blast
qed

text \<open>
  C10. The keys of the table built by \<open>Counter\<close> are distinct and stand in the order of
  their first occurrence in the sequence, and among the labels that attain the highest
  count \<open>get_mean_color\<close> returns the one whose first occurrence in the sequence is the
  earliest.
\<close>

theorem get_mean_color_tie_break:
  "derived self cs \<and> cs \<noteq> [] \<longrightarrow>
     distinct (map fst (Counter cs)) \<and>
     sorted_wrt (\<lambda>a b. first_index cs a < first_index cs b) (map fst (Counter cs)) \<and>
     (\<exists>l. fst (get_mean_color self) = Inr (Some l) \<and>
          (\<forall>l'. count_list cs l' \<le> count_list cs l) \<and>
          (\<forall>l'\<in>set cs. count_list cs l' = count_list cs l \<longrightarrow>
             first_index cs l \<le> first_index cs l'))"
proof
  assume a: "derived self cs \<and> cs \<noteq> []"
  then obtain l where l: "max_key snd (Counter cs) = Inr (l, int (count_list cs l))"
    "\<forall>l'. count_list cs l' \<le> count_list cs l"
    "\<forall>l'\<in>set cs. count_list cs l' = count_list cs l \<longrightarrow> first_index cs l \<le> first_index cs l'"
    using mean_color_core[of cs] by blast
  have "fst (get_mean_color self) = Inr (Some l)"
    using get_mean_color_derived[OF _ l(1)] a by simp
  then show "distinct (map fst (Counter cs)) \<and>
     sorted_wrt (\<lambda>a b. first_index cs a < first_index cs b) (map fst (Counter cs)) \<and>
     (\<exists>l. fst (get_mean_color self) = Inr (Some l) \<and>
          (\<forall>l'. count_list cs l' \<le> count_list cs l) \<and>
          (\<forall>l'\<in>set cs. count_list cs l' = count_list cs l \<longrightarrow>
             first_index cs l \<le> first_index cs l'))"
    using l(2,3) distinct_keys_Counter keys_Counter_sorted by blast
qed

theorem get_mean_color_tie_break_witness:
  "derived tied_analyzer [''GREEN'', ''BLUE'', ''BLUE'', ''GREEN''] \<and>
   [''GREEN'', ''BLUE'', ''BLUE'', ''GREEN''] \<noteq> ([] :: string list) \<and>
   fst (get_mean_color tied_analyzer) = Inr (Some ''GREEN'')"
proof -
  let ?cs = "[''GREEN'', ''BLUE'', ''BLUE'', ''GREEN'']"
  have h: "derived tied_analyzer ?cs \<and> ?cs \<noteq> []" using derived_tied by simp
  from get_mean_color_tie_break [of tied_analyzer ?cs] h
  obtain l where l: "fst (get_mean_color tied_analyzer) = Inr (Some l)"
    and m: "\<forall>l'. count_list ?cs l' \<le> count_list ?cs l"
    and t: "\<forall>l'\<in>set ?cs. count_list ?cs l' = count_list ?cs l \<longrightarrow>
             first_index ?cs l \<le> first_index ?cs l'" by blast
  from m have "count_list ?cs ''GREEN'' \<le> count_list ?cs l" by blast
  then have "l = ''GREEN'' \<or> l = ''BLUE''" by (simp split: if_splits)
  moreover have "l \<noteq> ''BLUE''"
  proof
    assume "l = ''BLUE''"
    with t have "first_index ?cs ''BLUE'' \<le> first_index ?cs ''GREEN''" by simp
    then show False by simp
  qed
  ultimately show ?thesis using l h by simp
qed

section \<open>Median\<close>

lemma getitem_nat: "i < length xs \<Longrightarrow> getitem xs (int i) = Inr (xs ! i)"
  by (simp add: getitem_def)

lemma middle_in_range: "xs \<noteq> [] \<Longrightarrow> length xs div 2 < length xs \<and> (length xs - 1) div 2 < length xs"
proof -
  assume "xs \<noteq> []"
  then have "0 < length xs" by simp
  then show ?thesis by arith
qed

lemma get_median_color_nonempty:
  assumes "colors self = Some cs" "cs \<noteq> []"
  shows "fst (get_median_color self) =
     Inr (Some (sort cs ! (if odd (length cs) then length cs div 2 else (length cs - 1) div 2)))"
proof -
  let ?n = "length cs"
  have pos: "0 < ?n" using assms(2) by simp
  have a: "int ?n div 2 = int (?n div 2)" by simp
  have b: "(int ?n - 1) div 2 = int ((?n - 1) div 2)" using pos by (cases ?n) simp_all
  have c: "?n div 2 < length (sort cs)" "(?n - 1) div 2 < length (sort cs)"
    using middle_in_range[OF assms(2)] by simp_all
  have d: "(int ?n mod 2 = 1) = odd ?n" by presburger
  show ?thesis
    using assms getitem_nat[OF c(1)] getitem_nat[OF c(2)]
    by (simp add: get_median_color_def Let_def a b d)
qed

text \<open>
  C2. On an object whose label sequence has length \<open>n > 0\<close>, \<open>get_median_color\<close>
  returns the element at index \<open>n div 2\<close> of the sorted sequence when \<open>n\<close> is odd and
  the element at index \<open>(n - 1) div 2\<close> when \<open>n\<close> is even; in both cases the result is
  a member of the sequence. On the empty sequence it returns \<open>None\<close>. Strings are
  ordered lexicographically by character code.
\<close>

theorem get_median_color_index:
  "colors self = Some cs \<longrightarrow>
     (cs = [] \<longrightarrow> fst (get_median_color self) = Inr None) \<and>
     (cs \<noteq> [] \<longrightarrow>
        (odd (length cs) \<longrightarrow>
           fst (get_median_color self) = Inr (Some (sort cs ! (length cs div 2)))) \<and>
        (even (length cs) \<longrightarrow>
           fst (get_median_color self) = Inr (Some (sort cs ! ((length cs - 1) div 2)))) \<and>
        (\<exists>l\<in>set cs. fst (get_median_color self) = Inr (Some l)))"
proof (intro impI conjI)
  assume "colors self = Some cs" "cs = []"
  then show "fst (get_median_color self) = Inr None" by (simp add: get_median_color_def)
next
  assume "colors self = Some cs" "cs \<noteq> []" "odd (length cs)"
  then show "fst (get_median_color self) = Inr (Some (sort cs ! (length cs div 2)))"
    using get_median_color_nonempty[of self cs] by simp
next
  assume "colors self = Some cs" "cs \<noteq> []" "even (length cs)"
  then show "fst (get_median_color self) = Inr (Some (sort cs ! ((length cs - 1) div 2)))"
    using get_median_color_nonempty[of self cs] by simp
next
  assume a: "colors self = Some cs" "cs \<noteq> []"
  let ?k = "if odd (length cs) then length cs div 2 else (length cs - 1) div 2"
  have "?k < length (sort cs)" using middle_in_range[OF a(2)] by simp
  then have "sort cs ! ?k \<in> set (sort cs)" by (rule nth_mem)
  then have "sort cs ! ?k \<in> set cs" by simp
  then show "\<exists>l\<in>set cs. fst (get_median_color self) = Inr (Some l)"
    using get_median_color_nonempty[OF a] by blast
qed

theorem get_median_color_index_witness:
  "colors sample_analyzer = Some fallback_sequence \<and> fallback_sequence \<noteq> [] \<and>
   even (length fallback_sequence) \<and>
   fst (get_median_color sample_analyzer) =
     Inr (Some (sort fallback_sequence ! ((length fallback_sequence - 1) div 2))) \<and>
   colors tied_analyzer = Some [''GREEN'', ''BLUE'', ''BLUE'', ''GREEN''] \<and>
   (\<exists>l\<in>set [''GREEN'', ''BLUE'', ''BLUE'', ''GREEN''].
      fst (get_median_color tied_analyzer) = Inr (Some l)) \<and>
   colors (init new_analyzer) = Some [] \<and>
   fst (get_median_color (init new_analyzer)) = Inr None"
proof -
  have h: "colors sample_analyzer = Some fallback_sequence" "fallback_sequence \<noteq> []"
    "even (length fallback_sequence)"
    by (simp_all add: sample_analyzer_def fallback_sequence_def)
  have t: "colors tied_analyzer = Some [''GREEN'', ''BLUE'', ''BLUE'', ''GREEN'']"
    by (simp add: tied_analyzer_def)
  have e: "colors (init new_analyzer) = Some []" by (simp add: init_def)
  show ?thesis
    using h t e get_median_color_index [of sample_analyzer fallback_sequence]
      get_median_color_index [of tied_analyzer "[''GREEN'', ''BLUE'', ''BLUE'', ''GREEN'']"]
      get_median_color_index [of "init new_analyzer" "[]"]
    by simp
qed

section \<open>Acquisition and fallback\<close>

text \<open>
  C6. \<open>fetch_and_parse_html\<close> always returns normally, and the label sequence it leaves
  is never empty. When acquisition fails (the \<open>url\<close> attribute is missing or the request
  raises) or the request succeeds and the pattern recognises no label, the label
  sequence is the fourteen-label sequence RED, GREEN, BLUE, RED, GREEN, BLUE, RED, YELLOW,
  BLUE, RED, GREEN, RED, BLUE, GREEN, the same in both branches.
\<close>

theorem fetch_and_parse_html_fallback:
  "(\<exists>b. fst (fetch_and_parse_html w self) = Inr b) \<and>
   (\<exists>cs. colors (snd (fetch_and_parse_html w self)) = Some cs \<and> cs \<noteq> []) \<and>
   (url self = None \<or> (\<exists>u e. url self = Some u \<and> requests_get w u = Inl e) \<or>
    (\<exists>u html. url self = Some u \<and> requests_get w u = Inr html \<and>
       re_findall w color_pattern (str_upper w html) = []) \<longrightarrow>
      colors (snd (fetch_and_parse_html w self)) =
        Some [''RED'', ''GREEN'', ''BLUE'', ''RED'', ''GREEN'', ''BLUE'', ''RED'',
              ''YELLOW'', ''BLUE'', ''RED'', ''GREEN'', ''RED'', ''BLUE'', ''GREEN''] \<and>
      length (the (colors (snd (fetch_and_parse_html w self)))) = 14)"
proof (intro conjI impI)
  show "\<exists>b. fst (fetch_and_parse_html w self) = Inr b"
    using fetch_and_parse_html_post[of w self] by blast
  show "\<exists>cs. colors (snd (fetch_and_parse_html w self)) = Some cs \<and> cs \<noteq> []"
    using fetch_and_parse_html_post[of w self] by blast
next
  assume "url self = None \<or> (\<exists>u e. url self = Some u \<and> requests_get w u = Inl e) \<or>
    (\<exists>u html. url self = Some u \<and> requests_get w u = Inr html \<and>
       re_findall w color_pattern (str_upper w html) = [])"
  then have "(\<exists>e. fetch_colors w self = Inl e) \<or> fetch_colors w self = Inr []"
    by (auto simp: fetch_colors_def)
  then have c: "colors (snd (fetch_and_parse_html w self)) =
        Some [''RED'', ''GREEN'', ''BLUE'', ''RED'', ''GREEN'', ''BLUE'', ''RED'',
              ''YELLOW'', ''BLUE'', ''RED'', ''GREEN'', ''RED'', ''BLUE'', ''GREEN'']"
    by (auto simp: fetch_and_parse_html_def Let_def)
  then show "colors (snd (fetch_and_parse_html w self)) =
        Some [''RED'', ''GREEN'', ''BLUE'', ''RED'', ''GREEN'', ''BLUE'', ''RED'',
              ''YELLOW'', ''BLUE'', ''RED'', ''GREEN'', ''RED'', ''BLUE'', ''GREEN'']" .
  show "length (the (colors (snd (fetch_and_parse_html w self)))) = 14"
    unfolding c by simp
qed

theorem fetch_and_parse_html_fallback_witness:
  "url new_analyzer = None \<and>
   colors (snd (fetch_and_parse_html offline new_analyzer)) = Some fallback_sequence \<and>
   (\<exists>u html. url (init new_analyzer) = Some u \<and> requests_get blank_page u = Inr html \<and>
       re_findall blank_page color_pattern (str_upper blank_page html) = []) \<and>
   colors (snd (fetch_and_parse_html blank_page (init new_analyzer))) = Some fallback_sequence \<and>
   (\<exists>u e. url (init new_analyzer) = Some u \<and> requests_get offline u = Inl e) \<and>
   colors (snd (fetch_and_parse_html offline (init new_analyzer))) = Some fallback_sequence"
proof -
  have a: "url new_analyzer = None" by (simp add: new_analyzer_def)
  have b: "\<exists>u html. url (init new_analyzer) = Some u \<and> requests_get blank_page u = Inr html \<and>
       re_findall blank_page color_pattern (str_upper blank_page html) = []"
    by (simp add: init_def blank_page_def)
  have c: "\<exists>u e. url (init new_analyzer) = Some u \<and> requests_get offline u = Inl e"
    by (simp add: init_def offline_def)
  show ?thesis
    using a b c fetch_and_parse_html_fallback [of offline new_analyzer]
      fetch_and_parse_html_fallback [of blank_page "init new_analyzer"]
      fetch_and_parse_html_fallback [of offline "init new_analyzer"]
    unfolding fallback_sequence_def by blast
qed

section \<open>Queries leave the object unchanged\<close>

text \<open>
  C7. Each of \<open>get_mean_color\<close>, \<open>get_most_frequent_color\<close>, \<open>get_median_color\<close>,
  \<open>get_color_variance\<close> and \<open>get_red_probability\<close> leaves the object exactly as it
  found it, whatever its state, so \<open>colors\<close> and \<open>color_frequencies\<close> are unchanged; and a
  second call on the object the first call left returns the same result.
\<close>

theorem queries_are_pure:
  "snd (get_mean_color self) = self \<and>
   snd (get_most_frequent_color self) = self \<and>
   snd (get_median_color self) = self \<and>
   snd (get_color_variance rt self) = self \<and>
   snd (get_red_probability self) = self \<and>
   fst (get_mean_color (snd (get_mean_color self))) = fst (get_mean_color self) \<and>
   fst (get_most_frequent_color (snd (get_most_frequent_color self))) =
     fst (get_most_frequent_color self) \<and>
   fst (get_median_color (snd (get_median_color self))) = fst (get_median_color self) \<and>
   fst (get_color_variance rt (snd (get_color_variance rt self))) =
     fst (get_color_variance rt self) \<and>
   fst (get_red_probability (snd (get_red_probability self))) = fst (get_red_probability self)"
proof -
  have 1: "snd (get_mean_color self) = self"
    by (simp add: get_mean_color_def split: option.splits sum.splits)
  have 2: "snd (get_most_frequent_color self) = self"
    using 1 by (simp add: get_most_frequent_color_def)
  have 3: "snd (get_median_color self) = self"
    by (simp add: get_median_color_def Let_def split: option.splits)
  have 4: "snd (get_color_variance rt self) = self"
    by (simp add: get_color_variance_def Let_def split: option.splits sum.splits)
  have 5: "snd (get_red_probability self) = self"
    by (simp add: get_red_probability_def Let_def split: option.splits)
  show ?thesis by (simp add: 1 2 3 4 5)
qed

theorem queries_are_pure_witness:
  "snd (get_mean_color sample_analyzer) = sample_analyzer \<and>
   snd (get_most_frequent_color sample_analyzer) = sample_analyzer \<and>
   snd (get_median_color sample_analyzer) = sample_analyzer \<and>
   snd (get_color_variance naive_runtime sample_analyzer) = sample_analyzer \<and>
   snd (get_red_probability sample_analyzer) = sample_analyzer"
  using queries_are_pure [of sample_analyzer naive_runtime] by blast

section \<open>Recursive search\<close>






section \<open>Fibonacci sum\<close>

lemma fib_loop_upto:
  "2 \<le> n \<Longrightarrow>
   fib_loop (map fib [0..<n]) (map int [n..<n + k]) = Inr (map fib [0..<n + k])"
proof (induction k arbitrary: n)
  case 0
  show ?case by simp
next
  case (Suc k)
  obtain m where n: "n = Suc (Suc m)" using Suc.prems by (cases n; cases "n - 1") auto
  have r: "map int [n..<n + Suc k] = int n # map int [Suc n..<Suc n + k]"
    by (simp add: upt_rec)
  have i1: "int n - 1 = int (Suc m)" and i2: "int n - 2 = int m" using n by simp_all
  have a: "getitem (map fib [0..<n]) (int n - 1) = Inr (fib (Suc m))"
    unfolding i1 using n by (subst getitem_nat) (simp_all del: upt_Suc)
  have b: "getitem (map fib [0..<n]) (int n - 2) = Inr (fib m)"
    unfolding i2 using n by (subst getitem_nat) (simp_all del: upt_Suc)
  have e: "map fib [0..<n] @ [fib (Suc m) + fib m] = map fib [0..<Suc n]"
    using n by simp
  have "fib_loop (map fib [0..<n]) (map int [n..<n + Suc k]) =
        fib_loop (map fib [0..<Suc n]) (map int [Suc n..<Suc n + k])"
    unfolding r by (simp add: a b e del: upt_Suc)
  also have "\<dots> = Inr (map fib [0..<Suc n + k])"
    by (rule Suc.IH) (use Suc.prems in simp)
  finally show ?case by (simp del: upt_Suc)
qed

lemma py_range_nat: "py_range (int a) (int b) = map int [a..<b]"
proof -
  have "[int a..int b - 1] = map int [a..<b]"
  proof (induction b)
    case 0
    show ?case by (simp add: upto_rec1)
  next
    case (Suc b)
    show ?case
    proof (cases "a \<le> b")
      case True
      then have "[int a..int (Suc b) - 1] = [int a..int b - 1] @ [int b]"
        using upto_rec2[of "int a" "int b"] by simp
      then show ?thesis using Suc True by simp
    next
      case False
      then show ?thesis by simp
    qed
  qed
  then show ?thesis by (simp add: py_range_def)
qed

lemma sum_fib: "(\<Sum>i<n. fib i) = fib (Suc n) - 1"
proof (induction n)
  case 0
  show ?case by simp
next
  case (Suc n)
  then show ?case by (cases n) simp_all
qed

lemma sum_first_50_fibonacci_literal: "sum_first_50_fibonacci = Inr 20365011073"
  by code_simp

lemma sum_first_50_fibonacci_fib: "sum_first_50_fibonacci = Inr (\<Sum>i<50. fib i)"
proof -
  have s: "map fib [0..<2] = [0, 1]" by (simp add: upt_rec)
  have "fib_loop (map fib [0..<2]) (map int [2..<2 + 48]) = Inr (map fib [0..<2 + 48])"
    by (rule fib_loop_upto) simp
  moreover have "py_range 2 50 = map int [2..<2 + 48]"
    using py_range_nat[of 2 50] by simp
  ultimately have "fib_loop [0, 1] (py_range 2 50) = Inr (map fib [0..<50])"
    by (simp only: s) simp
  moreover have "sum_list (map fib [0..<50]) = (\<Sum>i<50. fib i)"
    by (simp only: interv_sum_list_conv_sum_set_nat set_upt atLeast0LessThan)
  ultimately show ?thesis by (simp only: sum_first_50_fibonacci_def sum.case)
qed

text \<open>
  C9. \<open>sum_first_50_fibonacci\<close> returns normally, and its result is the sum of the
  Fibonacci numbers \<open>F\<^sub>0\<close> to \<open>F\<^sub>4\<^sub>9\<close> (with \<open>F\<^sub>0 = 0\<close> and \<open>F\<^sub>1 = 1\<close>), which is the
  integer 20365011073, one less than \<open>F\<^sub>5\<^sub>1\<close>.
\<close>

theorem sum_first_50_fibonacci_value:
  "sum_first_50_fibonacci = Inr (\<Sum>i<50. fib i) \<and>
   sum_first_50_fibonacci = Inr 20365011073 \<and>
   (20365011073 :: int) = fib 51 - 1"
proof -
  have "Inr (\<Sum>i<50. fib i) = (Inr 20365011073 :: exn + int)"
    unfolding sum_first_50_fibonacci_fib[symmetric] by (rule sum_first_50_fibonacci_literal)
  then have "(\<Sum>i<50. fib i) = (20365011073 :: int)" by (simp only: sum.inject)
  moreover have "(\<Sum>i<50. fib i) = fib (Suc 50) - 1" by (rule sum_fib)
  moreover have "Suc 50 = 51" by simp
  ultimately have "(20365011073 :: int) = fib 51 - 1" by metis
  then show ?thesis
    using sum_first_50_fibonacci_fib sum_first_50_fibonacci_literal by blast
qed

theorem sum_first_50_fibonacci_value_witness:
  "sum_first_50_fibonacci = Inr 20365011073 \<and> fib 51 = 20365011074"
proof -
  from sum_first_50_fibonacci_value
  have a: "sum_first_50_fibonacci = Inr 20365011073" and b: "(20365011073 :: int) = fib 51 - 1"
    by blast+
  from b have "fib 51 = 20365011074" by linarith
  with a show ?thesis by blast
qed

section \<open>Rounding\<close>

text \<open>
  The exponent chosen by \<open>floor_log2\<close> brackets its argument, rounding moves a value by
  at most half a unit in the last place, and a value in the unit interval stays there.
\<close>

lemma bitlen_powi_bounds:
  assumes "0 < a"
  shows "(2::rat) powi (bitlen a - 1) \<le> of_int a \<and> of_int a < (2::rat) powi bitlen a"
proof -
  from bitlen_bounds[OF assms] have l: "2 ^ nat (bitlen a - 1) \<le> a" and u: "a < 2 ^ nat (bitlen a)"
    by simp_all
  have k: "1 \<le> bitlen a" using assms by (simp add: bitlen_alt_def)
  have "(of_int (2 ^ nat (bitlen a - 1)) :: rat) \<le> of_int a" using l by (simp only: of_int_le_iff)
  then have 1: "(2::rat) powi (bitlen a - 1) \<le> of_int a"
    using k by (simp add: power_int_nonneg_exp)
  have "(of_int a :: rat) < of_int (2 ^ nat (bitlen a))" using u by (simp only: of_int_less_iff)
  then have 2: "of_int a < (2::rat) powi bitlen a"
    using k by (simp add: power_int_nonneg_exp)
  show ?thesis using 1 2 by simp
qed

lemma floor_log2_bounds:
  assumes "0 < x"
  shows "2 powi floor_log2 x \<le> x \<and> x < 2 powi (floor_log2 x + 1)"
proof -
  obtain a b where q: "quotient_of x = (a, b)" by (cases "quotient_of x")
  have b: "0 < b" using quotient_of_denom_pos[OF q] .
  have x: "x = of_int a / of_int b" using quotient_of_div[OF q] .
  have a: "0 < a" using assms b unfolding x by (simp add: zero_less_divide_iff)
  let ?d = "bitlen a - bitlen b"
  note A = bitlen_powi_bounds[OF a] and B = bitlen_powi_bounds[OF b]
  have bpos: "(0::rat) < of_int b" using b by simp
  have p: "(0::rat) < 2 powi k" for k by simp
  have lo: "2 powi (?d - 1) \<le> x"
  proof -
    have "(2::rat) powi (?d - 1) = 2 powi (bitlen a - 1) / 2 powi bitlen b"
      by (simp add: power_int_diff)
    also have "\<dots> \<le> of_int a / 2 powi bitlen b"
      using A by (simp add: divide_right_mono)
    also have "\<dots> \<le> of_int a / of_int b"
      using B a bpos by (simp add: frac_le)
    finally show ?thesis unfolding x .
  qed
  have hi: "x < 2 powi (?d + 1)"
  proof -
    have "x < 2 powi bitlen a / of_int b"
      unfolding x using A bpos by (simp add: divide_strict_right_mono)
    also have "\<dots> \<le> 2 powi bitlen a / 2 powi (bitlen b - 1)"
      using B p[of "bitlen b - 1"] by (simp add: frac_le)
    also have "\<dots> = 2 powi (?d + 1)"
      by (simp add: power_int_diff power_int_add)
    finally show ?thesis .
  qed
  show ?thesis
  proof (cases "2 powi ?d \<le> x")
    case True
    then have "floor_log2 x = ?d" by (simp add: floor_log2_def q)
    then show ?thesis using True hi by simp
  next
    case False
    then have "floor_log2 x = ?d - 1" by (simp add: floor_log2_def q)
    then show ?thesis using False lo by simp
  qed
qed

lemma round_half_even_bounds: "\<lfloor>q\<rfloor> \<le> round_half_even q \<and> round_half_even q \<le> \<lceil>q\<rceil>"
proof -
  have "q - of_int \<lfloor>q\<rfloor> \<noteq> 0 \<Longrightarrow> \<lceil>q\<rceil> = \<lfloor>q\<rfloor> + 1"
    by (metis ceiling_altdef diff_eq_diff_eq diff_zero floor_of_int of_int_floor_cancel)
  moreover have "q - of_int \<lfloor>q\<rfloor> = 0 \<Longrightarrow> round_half_even q = \<lfloor>q\<rfloor>"
    by (simp add: round_half_even_def)
  moreover have "\<lfloor>q\<rfloor> \<le> \<lceil>q\<rceil>" by (simp add: floor_le_ceiling)
  ultimately show ?thesis
    by (cases "q - of_int \<lfloor>q\<rfloor> = 0") (auto simp: round_half_even_def Let_def)
qed

lemma round_half_even_error: "\<bar>of_int (round_half_even q) - q\<bar> \<le> 1 / 2"
proof -
  define r where "r = q - of_int \<lfloor>q\<rfloor>"
  have r: "0 \<le> r" "r < 1" unfolding r_def by linarith+
  have q: "q = of_int \<lfloor>q\<rfloor> + r" by (simp add: r_def)
  have "of_int (round_half_even q) - q = - r \<or> of_int (round_half_even q) - q = 1 - r"
    unfolding round_half_even_def Let_def r_def[symmetric] using q by auto
  moreover have "r < 1 / 2 \<Longrightarrow> of_int (round_half_even q) - q = - r"
    unfolding round_half_even_def Let_def r_def[symmetric] using q by auto
  moreover have "1 / 2 < r \<Longrightarrow> of_int (round_half_even q) - q = 1 - r"
    unfolding round_half_even_def Let_def r_def[symmetric] using q by auto
  ultimately show ?thesis using r by (cases "r < 1 / 2"; cases "1 / 2 < r") auto
qed

lemma round_double_nonneg: "0 \<le> x \<Longrightarrow> 0 \<le> round_double x"
proof -
  assume x: "0 \<le> x"
  have "0 \<le> round_half_even (x / 2 powi (floor_log2 \<bar>x\<bar> - 52))"
  proof -
    have "0 \<le> x / 2 powi (floor_log2 \<bar>x\<bar> - 52)" using x by simp
    then have "0 \<le> \<lfloor>x / 2 powi (floor_log2 \<bar>x\<bar> - 52)\<rfloor>" by simp
    then show ?thesis using round_half_even_bounds order_trans by blast
  qed
  then show ?thesis by (simp add: round_double_def Let_def)
qed

lemma round_double_le_one:
  assumes "0 \<le> x" "x \<le> 1"
  shows "round_double x \<le> 1"
proof (cases "x = 0")
  case True
  then show ?thesis by (simp add: round_double_def)
next
  case False
  then have pos: "0 < x" using assms(1) by simp
  let ?e = "floor_log2 x"
  let ?ulp = "(2::rat) powi (?e - 52)"
  have "2 powi ?e \<le> x" using floor_log2_bounds[OF pos] by simp
  then have "(2::rat) powi ?e \<le> 2 powi 0" using assms(2) by simp
  then have e: "?e \<le> 0" by (rule power_int_le_imp_le_exp[rotated]) simp_all
  have u: "0 < ?ulp" by simp
  have inv: "1 / ?ulp = of_int (2 ^ nat (52 - ?e))"
  proof -
    have "1 / ?ulp = 2 powi (52 - ?e)" by (simp add: power_int_diff)
    also have "\<dots> = 2 ^ nat (52 - ?e)" using e by (simp add: power_int_nonneg_exp)
    finally show ?thesis by simp
  qed
  have "x / ?ulp \<le> 1 / ?ulp" using assms(2) u by (simp add: divide_right_mono)
  then have "x / ?ulp \<le> of_int (2 ^ nat (52 - ?e))" using inv by simp
  then have "\<lceil>x / ?ulp\<rceil> \<le> 2 ^ nat (52 - ?e)" by (simp only: ceiling_le_iff)
  then have "round_half_even (x / ?ulp) \<le> 2 ^ nat (52 - ?e)"
    using round_half_even_bounds[of "x / ?ulp"] by linarith
  then have "(of_int (round_half_even (x / ?ulp)) :: rat) \<le> of_int (2 ^ nat (52 - ?e))"
    by (simp only: of_int_le_iff)
  then have "of_int (round_half_even (x / ?ulp)) \<le> 1 / ?ulp" using inv by simp
  then have "of_int (round_half_even (x / ?ulp)) * ?ulp \<le> 1"
    using u by (simp add: pos_le_divide_eq)
  then show ?thesis using pos False by (simp add: round_double_def Let_def)
qed

lemma round_double_error:
  assumes "0 < x"
  shows "\<bar>round_double x - x\<bar> \<le> 2 powi (floor_log2 x - 53)"
proof -
  let ?ulp = "(2::rat) powi (floor_log2 x - 52)"
  have u: "0 < ?ulp" by simp
  have "\<bar>of_int (round_half_even (x / ?ulp)) - x / ?ulp\<bar> \<le> 1 / 2"
    by (rule round_half_even_error)
  then have "\<bar>of_int (round_half_even (x / ?ulp)) - x / ?ulp\<bar> * ?ulp \<le> 1 / 2 * ?ulp"
    using u by (simp add: mult_right_mono)
  moreover have "\<bar>of_int (round_half_even (x / ?ulp)) - x / ?ulp\<bar> * ?ulp =
      \<bar>of_int (round_half_even (x / ?ulp)) * ?ulp - x\<bar>"
  proof -
    have "\<bar>of_int (round_half_even (x / ?ulp)) - x / ?ulp\<bar> * ?ulp =
      \<bar>(of_int (round_half_even (x / ?ulp)) - x / ?ulp) * ?ulp\<bar>"
      using u by (simp add: abs_mult)
    also have "(of_int (round_half_even (x / ?ulp)) - x / ?ulp) * ?ulp =
       of_int (round_half_even (x / ?ulp)) * ?ulp - x"
      using u by (simp add: left_diff_distrib)
    finally show ?thesis .
  qed
  moreover have "1 / 2 * ?ulp = 2 powi (floor_log2 x - 53)"
    by (simp add: power_int_diff)
  ultimately show ?thesis using assms by (simp add: round_double_def Let_def)
qed


lemma round_double_zero: "round_double 0 = 0"
  by (simp add: round_double_def)

lemma round_double_unit_error:
  assumes "0 \<le> x" "x \<le> 1"
  shows "\<bar>round_double x - x\<bar> \<le> 2 powi (- 53)"
proof (cases "x = 0")
  case True
  then show ?thesis by (simp add: round_double_zero)
next
  case False
  then have pos: "0 < x" using assms(1) by simp
  have "2 powi floor_log2 x \<le> x" using floor_log2_bounds[OF pos] by simp
  then have "(2::rat) powi floor_log2 x \<le> 2 powi 0" using assms(2) by simp
  then have "floor_log2 x \<le> 0" by (rule power_int_le_imp_le_exp[rotated]) simp_all
  then have "(2::rat) powi (floor_log2 x - 53) \<le> 2 powi (- 53)"
    by (intro power_int_increasing) simp_all
  then show ?thesis using round_double_error[OF pos] by linarith
qed

section \<open>Probability of RED\<close>

lemma get_red_probability_derived:
  assumes "derived self cs" "cs \<noteq> []"
  shows "fst (get_red_probability self) =
    Inr (PyFloat (round_double (of_nat (count_list cs ''RED'') / of_nat (length cs))))"
  using assms by (simp add: get_red_probability_def derived_def Counter_get int_truediv_def)

lemma count_list_le_length: "count_list xs x \<le> length xs"
  by (induction xs) auto

text \<open>
  C4. On an object whose label sequence is empty \<open>get_red_probability\<close> returns the
  integer \<open>0\<close> and divides nothing. On an object whose table is derived from a non-empty
  sequence of length \<open>n\<close> it returns the float \<open>count('RED') / n\<close>, that is the quotient
  of the number of occurrences of RED by \<open>n\<close> rounded to binary64, which is \<open>0.0\<close> when
  RED never appears. In both cases the method returns normally, the result lies in the
  closed interval from 0 to 1, and it differs from the exact quotient by at most
  \<open>2\<^sup>-\<^sup>5\<^sup>3\<close>.
\<close>

theorem get_red_probability_value:
  "(colors self = Some [] \<longrightarrow> fst (get_red_probability self) = Inr (PyInt 0)) \<and>
   (derived self cs \<and> cs \<noteq> [] \<longrightarrow>
      fst (get_red_probability self) =
        map_sum id PyFloat (int_truediv (int (count_list cs ''RED'')) (int (length cs))) \<and>
      fst (get_red_probability self) =
        Inr (PyFloat (round_double (of_nat (count_list cs ''RED'') / of_nat (length cs)))) \<and>
      (''RED'' \<notin> set cs \<longrightarrow> fst (get_red_probability self) = Inr (PyFloat 0))) \<and>
   (derived self cs \<longrightarrow>
      (\<exists>v. fst (get_red_probability self) = Inr v \<and>
           0 \<le> number_value v \<and> number_value v \<le> 1 \<and>
           \<bar>number_value v * of_nat (length cs) - of_nat (count_list cs ''RED'')\<bar>
             \<le> 2 powi (- 53) * of_nat (length cs)))"
proof (intro conjI impI)
  assume "colors self = Some []"
  then show "fst (get_red_probability self) = Inr (PyInt 0)"
    by (simp add: get_red_probability_def)
next
  assume a: "derived self cs \<and> cs \<noteq> []"
  then show r: "fst (get_red_probability self) =
        Inr (PyFloat (round_double (of_nat (count_list cs ''RED'') / of_nat (length cs))))"
    using get_red_probability_derived by blast
  show "fst (get_red_probability self) =
        map_sum id PyFloat (int_truediv (int (count_list cs ''RED'')) (int (length cs)))"
    using a by (simp add: r int_truediv_def)
  assume "''RED'' \<notin> set cs"
  then have "count_list cs ''RED'' = 0" by (simp add: count_list_0_iff)
  then show "fst (get_red_probability self) = Inr (PyFloat 0)"
    by (simp add: r round_double_zero)
next
  assume d: "derived self cs"
  let ?c = "of_nat (count_list cs ''RED'') :: rat" and ?n = "of_nat (length cs) :: rat"
  show "\<exists>v. fst (get_red_probability self) = Inr v \<and>
           0 \<le> number_value v \<and> number_value v \<le> 1 \<and>
           \<bar>number_value v * ?n - ?c\<bar> \<le> 2 powi (- 53) * ?n"
  proof (cases "cs = []")
    case True
    then have "fst (get_red_probability self) = Inr (PyInt 0)"
      using d by (simp add: get_red_probability_def derived_def)
    then show ?thesis using True by simp
  next
    case False
    then have n: "0 < ?n" by simp
    have "?c \<le> ?n" using count_list_le_length[of cs "''RED''"] by (simp only: of_nat_le_iff)
    then have x: "0 \<le> ?c / ?n" "?c / ?n \<le> 1" using n by simp_all
    let ?p = "round_double (?c / ?n)"
    have "\<bar>?p - ?c / ?n\<bar> \<le> 2 powi (- 53)" using x by (rule round_double_unit_error)
    then have "\<bar>?p - ?c / ?n\<bar> * ?n \<le> 2 powi (- 53) * ?n"
      using n by (simp only: mult_le_cancel_right_pos)
    moreover have "\<bar>?p - ?c / ?n\<bar> * ?n = \<bar>?p * ?n - ?c\<bar>"
    proof -
      have "\<bar>?p - ?c / ?n\<bar> * ?n = \<bar>(?p - ?c / ?n) * ?n\<bar>" using n by (simp add: abs_mult)
      also have "(?p - ?c / ?n) * ?n = ?p * ?n - ?c" using n by (simp add: left_diff_distrib)
      finally show ?thesis .
    qed
    ultimately have e: "\<bar>?p * ?n - ?c\<bar> \<le> 2 powi (- 53) * ?n" by simp
    have "0 \<le> ?p" "?p \<le> 1"
      using x round_double_nonneg round_double_le_one by blast+
    then show ?thesis
      using get_red_probability_derived[OF d False] e by simp
  qed
qed

theorem get_red_probability_value_witness:
  "derived sample_analyzer fallback_sequence \<and> fallback_sequence \<noteq> [] \<and>
   fst (get_red_probability sample_analyzer) =
     map_sum id PyFloat (int_truediv (int (count_list fallback_sequence ''RED''))
       (int (length fallback_sequence))) \<and>
   (\<exists>v. fst (get_red_probability sample_analyzer) = Inr v \<and>
        0 \<le> number_value v \<and> number_value v \<le> 1) \<and>
   derived tied_analyzer [''GREEN'', ''BLUE'', ''BLUE'', ''GREEN''] \<and>
   ''RED'' \<notin> set [''GREEN'', ''BLUE'', ''BLUE'', ''GREEN''] \<and>
   fst (get_red_probability tied_analyzer) = Inr (PyFloat 0) \<and>
   colors (init new_analyzer) = Some [] \<and>
   fst (get_red_probability (init new_analyzer)) = Inr (PyInt 0)"
proof -
  have h: "derived sample_analyzer fallback_sequence \<and> fallback_sequence \<noteq> []"
    using derived_sample by (simp add: fallback_sequence_def)
  have t: "derived tied_analyzer [''GREEN'', ''BLUE'', ''BLUE'', ''GREEN''] \<and>
    [''GREEN'', ''BLUE'', ''BLUE'', ''GREEN''] \<noteq> ([] :: string list) \<and>
    ''RED'' \<notin> set [''GREEN'', ''BLUE'', ''BLUE'', ''GREEN'']"
    using derived_tied by simp
  have e: "colors (init new_analyzer) = Some []" by (simp add: init_def)
  show ?thesis
    using h t e get_red_probability_value [of sample_analyzer fallback_sequence]
      get_red_probability_value [of tied_analyzer "[''GREEN'', ''BLUE'', ''BLUE'', ''GREEN'']"]
      get_red_probability_value [of "init new_analyzer" "[]"]
    by blast
qed

section \<open>Variance of the counts\<close>

text \<open>
  The table has one entry per distinct label, holding that label's number of
  occurrences. On a table derived from a non-empty sequence \<open>get_color_variance\<close>
  therefore returns normally: it divides the length by the number of distinct labels,
  which is positive, and combines the squared deviations of the per-label counts with the
  runtime's power and sum, every other step being rounded to binary64.
\<close>

lemma Counter_values:
  "dict_values (Counter cs) = map (\<lambda>l. int (count_list cs l)) (map fst (Counter cs))"
  unfolding dict_values_def map_map
  by (rule map_cong) (auto dest: Counter_entry)

lemma length_Counter: "length (Counter cs) = card (set cs)"
proof -
  have "card (set (map fst (Counter cs))) = length (map fst (Counter cs))"
    using distinct_keys_Counter by (rule distinct_card)
  moreover have "set (map fst (Counter cs)) = set cs" using keys_Counter_set[of cs] by simp
  ultimately show ?thesis by simp
qed

lemma get_color_variance_empty:
  "colors self = Some [] \<Longrightarrow> fst (get_color_variance rt self) = Inr (PyInt 0)"
  by (simp add: get_color_variance_def)

lemma get_color_variance_derived:
  assumes "derived self cs" "cs \<noteq> []"
  shows "fst (get_color_variance rt self) =
    Inr (PyFloat (round_double
      (float_sum rt
         (map (\<lambda>l. float_pow rt
                 (int_sub_float (int (count_list cs l))
                    (round_double (of_nat (length cs) / of_nat (card (set cs))))) 2)
            (map fst (Counter cs)))
       / float_of_int (int (card (set cs))))))"
proof -
  have k: "card (set cs) \<noteq> 0" using assms(2) by simp
  have l: "length (dict_values (Counter cs)) = card (set cs)"
    by (simp add: dict_values_def length_Counter)
  have ne: "Counter cs \<noteq> []" using length_Counter[of cs] k by auto
  show ?thesis
    using assms k ne
    by (simp add: get_color_variance_def derived_def Let_def l int_truediv_def
        float_div_int_def Counter_values comp_def length_Counter)
qed

section \<open>The fallback sequence\<close>

text \<open>
  On the fallback sequence the mode is RED, the median is GREEN (index 6 of the sorted
  sequence) and the probability of RED is the binary64 number nearest to \<open>5/14\<close>.
\<close>

lemma sample_mode: "fst (get_mean_color sample_analyzer) = Inr (Some ''RED'')"
  by (simp add: get_mean_color_def sample_analyzer_def fallback_sequence_def Counter_def
      count_element_def dict_items_def max_step_def)

lemma sample_median: "fst (get_median_color sample_analyzer) = Inr (Some ''GREEN'')"
  by (simp add: get_median_color_def sample_analyzer_def fallback_sequence_def getitem_def)

lemma sample_red_probability:
  "fst (get_red_probability sample_analyzer) =
     Inr (PyFloat (6433713753386423 / 18014398509481984))"
proof -
  have "round_double (5 / 14) = 6433713753386423 / 18014398509481984" by code_simp
  then show ?thesis
    using get_red_probability_derived[OF derived_sample]
    by (simp add: fallback_sequence_def)
qed

end
